theory Spec2Isabelle
  imports Main
begin

section \<open>Data model of \<^verbatim>\<open>src/index.ts\<close>\<close>

text \<open>
  \<^verbatim>\<open>type Action = string | typeof KILL | undefined | null\<close>.  A \<^verbatim>\<open>post\<close> that returns
  nothing (\<^verbatim>\<open>void\<close>) returns \<^verbatim>\<open>undefined\<close>.
\<close>

datatype action = Named string | KILL | Undefined | Null

text \<open>
  The edge table is a JavaScript \<^verbatim>\<open>Map\<close>; \<^verbatim>\<open>connect\<close> stores its arguments through the casts
  \<^verbatim>\<open>action as Node\<close> and \<^verbatim>\<open>action as Action\<close>, so at run time a key or a value is either an
  action or a reference to a node.  Nodes are referred to by number.
\<close>

datatype jsval = Act action | NodeRef nat

text \<open>
  What a callback throws is an error message.  The engine itself throws
  \<^verbatim>\<open>new Error('Unreachable')\<close>, and a call of \<^verbatim>\<open>run\<close> on a value that is not a node fails with a
  type error at \<^verbatim>\<open>node.prep\<close>; both are objects that no callback can throw, so they are
  constructors of their own.
\<close>

datatype failure = Thrown string | Unreachable | NotANode

text \<open>
  \<^verbatim>\<open>NodeConfig\<close>: the number of attempts and two durations in milliseconds, taken to be
  integers.
\<close>

record nodeConfig =
  maxRetries :: int
  retryDelay :: int
  timeout :: int

definition DEFAULT_NODE_CONFIG :: nodeConfig where
  "DEFAULT_NODE_CONFIG = \<lparr>maxRetries = 3, retryDelay = 2000, timeout = 60000\<rparr>"

text \<open>
  The abstract class \<^verbatim>\<open>Node\<close>.  The callbacks are written by the user of the engine; they read
  and write the shared store (which stands for every piece of state they can reach), so each
  takes the store and returns the new one.  \<^verbatim>\<open>exec\<close>, \<^verbatim>\<open>execFallback\<close> and \<^verbatim>\<open>post\<close> return
  promises, which are fulfilled (\<open>Inr\<close>) or rejected (\<open>Inl\<close>).  \<^verbatim>\<open>prep\<close> returns the generator:
  a finite sequence of yield steps, each run against the store of the moment it is pulled
  and yielding an item (or a promise that resolves to it).  \<^verbatim>\<open>onError\<close> returns nothing and
  is a side effect only.  A generator or an \<^verbatim>\<open>onError\<close> that throws, and a yielded promise
  that rejects, are left out.  The field \<^verbatim>\<open>params\<close> is read by callbacks only and is part of
  what the store stands for.
\<close>

record ('s, 'i, 'r) node =
  config :: nodeConfig
  edges :: "jsval \<rightharpoonup> jsval"
  prep :: "'s \<Rightarrow> ('s \<Rightarrow> 's \<times> 'i) list"
  exec :: "'s \<Rightarrow> 'i \<Rightarrow> 's \<times> (string + 'r)"
  post :: "'s \<Rightarrow> 'i list \<Rightarrow> 'r list \<Rightarrow> 's \<times> (string + action)"
  execFallback :: "('s \<Rightarrow> 'i \<Rightarrow> string \<Rightarrow> 's \<times> (string + 'r)) option"
  onError :: "string \<Rightarrow> int \<Rightarrow> int \<Rightarrow> 's \<Rightarrow> 's"

text \<open>The constructor: \<^verbatim>\<open>this.config = { ...DEFAULT_NODE_CONFIG, ...config }\<close>.\<close>

definition mergeConfig :: "int option \<Rightarrow> int option \<Rightarrow> int option \<Rightarrow> nodeConfig" where
  "mergeConfig mr rd tm =
     \<lparr>maxRetries = (case mr of None \<Rightarrow> maxRetries DEFAULT_NODE_CONFIG | Some v \<Rightarrow> v),
      retryDelay = (case rd of None \<Rightarrow> retryDelay DEFAULT_NODE_CONFIG | Some v \<Rightarrow> v),
      timeout = (case tm of None \<Rightarrow> timeout DEFAULT_NODE_CONFIG | Some v \<Rightarrow> v)\<rparr>"

text \<open>
  \<^verbatim>\<open>connect(action: Action | Node, target?: Node)\<close>: with no target the first argument is
  stored under the string key \<^verbatim>\<open>'default'\<close>, otherwise the target is stored under the first
  argument.  The method returns \<^verbatim>\<open>this\<close>, here the updated node.
\<close>

definition connect ::
  "jsval \<Rightarrow> nat option \<Rightarrow> ('s, 'i, 'r) node \<Rightarrow> ('s, 'i, 'r) node" where
  "connect a target n =
     (case target of
        None \<Rightarrow> n\<lparr>edges := (edges n)(Act (Named ''default'') \<mapsto> a)\<rparr>
      | Some t \<Rightarrow> n\<lparr>edges := (edges n)(a \<mapsto> NodeRef t)\<rparr>)"

text \<open>\<^verbatim>\<open>getEdge(action)\<close> is \<^verbatim>\<open>this.edges.get(action)\<close>; \<open>None\<close> is \<^verbatim>\<open>undefined\<close>.\<close>

definition getEdge :: "('s, 'i, 'r) node \<Rightarrow> action \<Rightarrow> jsval option" where
  "getEdge n a = edges n (Act a)"

section \<open>The retry wrapper\<close>

text \<open>
  The calls the engine makes to the callbacks are recorded in a trace, in the order in which
  they complete: the trace is an observation of the run and is read by no definition.
  \<open>EvExec item attempt r\<close> is a call \<^verbatim>\<open>exec(store, item)\<close> made with loop counter \<open>attempt\<close>
  that ended with \<open>r\<close>; \<open>EvOnError e a m\<close> is \<^verbatim>\<open>onError(e, a, m)\<close>; \<open>EvSleep d\<close> is the
  wait of \<open>d\<close> milliseconds before the next attempt; \<open>EvFallback item e r\<close> is
  \<^verbatim>\<open>execFallback(store, item, e)\<close> ending with \<open>r\<close>; \<open>EvPost items results r\<close> is
  \<^verbatim>\<open>post(store, items, results)\<close> ending with \<open>r\<close>.
\<close>

datatype ('i, 'r) event =
    is_exec: EvExec 'i int "string + 'r"
  | is_onError: EvOnError string int int
  | is_sleep: EvSleep int
  | is_fallback: EvFallback 'i string "string + 'r"
  | is_post: EvPost "'i list" "'r list" "string + action"

text \<open>
  One pass through the body of the \<^verbatim>\<open>for\<close> loop of \<^verbatim>\<open>executeWithRetry\<close>, up to the point where
  the loop returns, throws, hands over to \<^verbatim>\<open>execFallback\<close> or goes round again (after
  \<^verbatim>\<open>onError\<close> and the sleep of \<^verbatim>\<open>Math.max(retryDelay, 0)\<close> milliseconds).
\<close>

datatype 'r iteration = Return 'r | Throw failure | UseFallback string | Retry

definition try_exec ::
  "('s, 'i, 'r) node \<Rightarrow> 'i \<Rightarrow> int \<Rightarrow> 's \<times> ('i, 'r) event list
     \<Rightarrow> ('s \<times> ('i, 'r) event list) \<times> 'r iteration" where
  "try_exec n item attempt st =
     (case st of (s, tr) \<Rightarrow>
        (case exec n s item of
           (s1, Inr v) \<Rightarrow> ((s1, tr @ [EvExec item attempt (Inr v)]), Return v)
         | (s1, Inl e) \<Rightarrow>
             (if attempt = maxRetries (config n) - 1 then
                (case execFallback n of
                   Some fb \<Rightarrow> ((s1, tr @ [EvExec item attempt (Inl e)]), UseFallback e)
                 | None \<Rightarrow> ((s1, tr @ [EvExec item attempt (Inl e)]), Throw (Thrown e)))
              else
                ((onError n e (attempt + 1) (maxRetries (config n)) s1,
                  tr @ [EvExec item attempt (Inl e),
                        EvOnError e (attempt + 1) (maxRetries (config n)),
                        EvSleep (max (retryDelay (config n)) 0)]),
                 Retry))))"

text \<open>\<^verbatim>\<open>return await node.execFallback(store, item, error)\<close>.\<close>

definition call_fallback ::
  "('s, 'i, 'r) node \<Rightarrow> 'i \<Rightarrow> string \<Rightarrow> 's \<times> ('i, 'r) event list
     \<Rightarrow> ('s \<times> ('i, 'r) event list) \<times> (failure + 'r)" where
  "call_fallback n item e st =
     (case st of (s, tr) \<Rightarrow>
        (case execFallback n of
           Some fb \<Rightarrow>
             (case fb s item e of
                (s1, r) \<Rightarrow> ((s1, tr @ [EvFallback item e r]), map_sum Thrown id r))
         | None \<Rightarrow> ((s, tr), Inl (Thrown e))))"

text \<open>
  \<^verbatim>\<open>for (let attempt = 0; attempt < maxRetries; attempt++) { ... } throw new Error('Unreachable')\<close>,
  from the loop counter \<open>attempt\<close> on.
\<close>

function retry_loop ::
  "('s, 'i, 'r) node \<Rightarrow> 'i \<Rightarrow> int \<Rightarrow> 's \<times> ('i, 'r) event list
     \<Rightarrow> ('s \<times> ('i, 'r) event list) \<times> (failure + 'r)" where
  "retry_loop n item attempt st =
     (if attempt < maxRetries (config n) then
        (case try_exec n item attempt st of
           (st1, Return v) \<Rightarrow> (st1, Inr v)
         | (st1, Throw f) \<Rightarrow> (st1, Inl f)
         | (st1, UseFallback e) \<Rightarrow> call_fallback n item e st1
         | (st1, Retry) \<Rightarrow> retry_loop n item (attempt + 1) st1)
      else (st, Inl Unreachable))"
  by pat_completeness auto
termination
  by (relation "measure (\<lambda>(n, item, attempt, st). nat (maxRetries (config n) - attempt))") auto

definition executeWithRetry ::
  "('s, 'i, 'r) node \<Rightarrow> 's \<Rightarrow> 'i \<Rightarrow> ('s \<times> ('i, 'r) event list) \<times> (failure + 'r)" where
  "executeWithRetry n s item = retry_loop n item 0 (s, [])"

section \<open>One cycle of \<^verbatim>\<open>run\<close>\<close>

text \<open>
  The asynchronous function started for each item that \<^verbatim>\<open>prep\<close> yields (an entry of
  \<^verbatim>\<open>execPromises\<close>), by the point it has reached:
  \<^item> \<open>AwaitItem x\<close>: before \<^verbatim>\<open>prepItems.push(await item)\<close>;
  \<^item> \<open>Attempt x a\<close>: in \<^verbatim>\<open>executeWithRetry\<close>, at the head of the loop with counter \<open>a\<close>;
  \<^item> \<open>InFallback x e\<close>: awaiting \<^verbatim>\<open>node.execFallback(store, item, error)\<close>;
  \<^item> \<open>Settled v\<close>: \<^verbatim>\<open>executeWithRetry\<close> has returned \<open>v\<close>, before \<^verbatim>\<open>execResults.push(execValue)\<close>;
  \<^item> \<open>Fulfilled\<close> and \<open>Rejected f\<close>: the promise is settled.
\<close>

datatype ('i, 'r) pipeline =
    is_AwaitItem: AwaitItem 'i
  | is_Attempt: Attempt 'i int
  | is_InFallback: InFallback 'i string
  | is_Settled: Settled 'r
  | is_Fulfilled: Fulfilled
  | is_Rejected: Rejected failure

text \<open>
  The state of one call of \<^verbatim>\<open>run\<close> up to its recursive call.  \<open>joinState\<close> is the promise of
  \<^verbatim>\<open>Promise.all(execPromises)\<close>: \<open>None\<close> before the call (the generator is still being pulled),
  \<open>Some None\<close> while it is pending, \<open>Some (Some f)\<close> once it is rejected with \<open>f\<close>.  \<open>outcome\<close>
  is set when the cycle is over: the action returned by \<^verbatim>\<open>post\<close>, or the failure \<^verbatim>\<open>run\<close>
  rejects with.  Pipelines still running when \<^verbatim>\<open>run\<close> rejects are followed no further.
\<close>

record ('s, 'i, 'r) cycleState =
  store :: 's
  prepItems :: "'i list"
  execResults :: "'r list"
  execPromises :: "('i, 'r) pipeline list"
  generator :: "('s \<Rightarrow> 's \<times> 'i) list"
  joinState :: "failure option option"
  outcome :: "(failure + action) option"
  trace :: "('i, 'r) event list"

definition init :: "('s, 'i, 'r) node \<Rightarrow> 's \<Rightarrow> ('s, 'i, 'r) cycleState" where
  "init n s =
     \<lparr>store = s, prepItems = [], execResults = [], execPromises = [],
      generator = prep n s, joinState = None, outcome = None, trace = []\<rparr>"

definition set_pipe ::
  "nat \<Rightarrow> ('i, 'r) pipeline \<Rightarrow> ('s, 'i, 'r) cycleState \<Rightarrow> ('s, 'i, 'r) cycleState" where
  "set_pipe i p c = c\<lparr>execPromises := (execPromises c)[i := p]\<rparr>"

text \<open>
  A pipeline that rejects: a pending \<^verbatim>\<open>Promise.all\<close> is rejected by the first of its promises
  that rejects; a later rejection changes nothing.
\<close>

definition reject ::
  "nat \<Rightarrow> failure \<Rightarrow> ('s, 'i, 'r) cycleState \<Rightarrow> ('s, 'i, 'r) cycleState" where
  "reject i f c =
     set_pipe i (Rejected f)
       (if joinState c = Some None then c\<lparr>joinState := Some (Some f)\<rparr> else c)"

text \<open>
  One step of pipeline \<open>i\<close>, from one suspension point to the next.  A call of a callback
  takes effect on the store at the moment it completes.  There is no step for a pipeline
  that has not been started.
\<close>

definition pipe_step ::
  "('s, 'i, 'r) node \<Rightarrow> nat \<Rightarrow> ('s, 'i, 'r) cycleState \<Rightarrow> ('s, 'i, 'r) cycleState" where
  "pipe_step n i c =
     (if length (execPromises c) \<le> i then c
      else case execPromises c ! i of
        AwaitItem x \<Rightarrow> set_pipe i (Attempt x 0) (c\<lparr>prepItems := prepItems c @ [x]\<rparr>)
      | Attempt x a \<Rightarrow>
          (if a < maxRetries (config n) then
             (case try_exec n x a (store c, trace c) of
                ((s, tr), Return v) \<Rightarrow> set_pipe i (Settled v) (c\<lparr>store := s, trace := tr\<rparr>)
              | ((s, tr), Throw f) \<Rightarrow> reject i f (c\<lparr>store := s, trace := tr\<rparr>)
              | ((s, tr), UseFallback e) \<Rightarrow>
                  set_pipe i (InFallback x e) (c\<lparr>store := s, trace := tr\<rparr>)
              | ((s, tr), Retry) \<Rightarrow> set_pipe i (Attempt x (a + 1)) (c\<lparr>store := s, trace := tr\<rparr>))
           else reject i Unreachable c)
      | InFallback x e \<Rightarrow>
          (case call_fallback n x e (store c, trace c) of
             ((s, tr), Inr v) \<Rightarrow> set_pipe i (Settled v) (c\<lparr>store := s, trace := tr\<rparr>)
           | ((s, tr), Inl f) \<Rightarrow> reject i f (c\<lparr>store := s, trace := tr\<rparr>))
      | Settled v \<Rightarrow> set_pipe i Fulfilled (c\<lparr>execResults := execResults c @ [v]\<rparr>)
      | Fulfilled \<Rightarrow> c
      | Rejected f \<Rightarrow> c)"

text \<open>
  \<^verbatim>\<open>Promise.all\<close> called on promises of which some are rejected already is rejected by the first
  of them in the order of the array.
\<close>

fun first_rejected :: "('i, 'r) pipeline list \<Rightarrow> failure option" where
  "first_rejected [] = None"
| "first_rejected (Rejected f # ps) = Some f"
| "first_rejected (p # ps) = first_rejected ps"

text \<open>
  One step of the body of \<^verbatim>\<open>run\<close> itself: pull the next item and start its pipeline; when the
  generator is done, call \<^verbatim>\<open>Promise.all\<close>; when that is rejected, reject; when every pipeline
  is fulfilled, call \<^verbatim>\<open>post\<close>.
\<close>

definition main_step ::
  "('s, 'i, 'r) node \<Rightarrow> ('s, 'i, 'r) cycleState \<Rightarrow> ('s, 'i, 'r) cycleState" where
  "main_step n c =
     (case joinState c of
        None \<Rightarrow>
          (case generator c of
             g # gs \<Rightarrow>
               (case g (store c) of
                  (s, x) \<Rightarrow>
                    c\<lparr>store := s, generator := gs,
                      execPromises := execPromises c @ [AwaitItem x]\<rparr>)
           | [] \<Rightarrow> c\<lparr>joinState := Some (first_rejected (execPromises c))\<rparr>)
      | Some (Some f) \<Rightarrow> c\<lparr>outcome := Some (Inl f)\<rparr>
      | Some None \<Rightarrow>
          (case post n (store c) (prepItems c) (execResults c) of
             (s, r) \<Rightarrow>
               c\<lparr>store := s,
                 trace := trace c @ [EvPost (prepItems c) (execResults c) r],
                 outcome := Some (map_sum Thrown id r)\<rparr>))"

text \<open>
  Who can take a step.  Actor \<open>0\<close> is the body of \<^verbatim>\<open>run\<close>, actor \<open>Suc i\<close> is pipeline \<open>i\<close>.
  The body waits at \<^verbatim>\<open>await Promise.all(execPromises)\<close> until that promise is rejected or
  every pipeline is fulfilled; a settled pipeline takes no step; nothing is followed once
  the cycle is over.
\<close>

definition pipe_enabled :: "('i, 'r) pipeline \<Rightarrow> bool" where
  "pipe_enabled p = (case p of Fulfilled \<Rightarrow> False | Rejected f \<Rightarrow> False | _ \<Rightarrow> True)"

definition main_enabled :: "('s, 'i, 'r) cycleState \<Rightarrow> bool" where
  "main_enabled c =
     (case joinState c of
        None \<Rightarrow> True
      | Some (Some f) \<Rightarrow> True
      | Some None \<Rightarrow> list_all (\<lambda>p. p = Fulfilled) (execPromises c))"

definition enabled :: "('s, 'i, 'r) cycleState \<Rightarrow> nat list" where
  "enabled c =
     (if outcome c \<noteq> None then []
      else (if main_enabled c then [0] else []) @
           map Suc (filter (\<lambda>i. pipe_enabled (execPromises c ! i)) [0..<length (execPromises c)]))"

definition step ::
  "('s, 'i, 'r) node \<Rightarrow> nat \<Rightarrow> ('s, 'i, 'r) cycleState \<Rightarrow> ('s, 'i, 'r) cycleState" where
  "step n k c = (case k of 0 \<Rightarrow> main_step n c | Suc i \<Rightarrow> pipe_step n i c)"

text \<open>
  The interleaving is chosen by a schedule: at each step its next number selects one of the
  actors that can take a step (the first of them once the schedule is used up).  Every
  order in which the suspended computations can be resumed is the run of some schedule.
\<close>

definition pick :: "nat list \<Rightarrow> nat list \<Rightarrow> nat" where
  "pick sched actors = actors ! ((case sched of [] \<Rightarrow> 0 | k # ks \<Rightarrow> k) mod length actors)"

fun pipe_weight :: "int \<Rightarrow> ('i, 'r) pipeline \<Rightarrow> nat" where
  "pipe_weight m (AwaitItem x) = 4 + nat m"
| "pipe_weight m (Attempt x a) = 3 + nat (m - a)"
| "pipe_weight m (InFallback x e) = 2"
| "pipe_weight m (Settled v) = 1"
| "pipe_weight m Fulfilled = 0"
| "pipe_weight m (Rejected f) = 0"

definition weight :: "('s, 'i, 'r) node \<Rightarrow> ('s, 'i, 'r) cycleState \<Rightarrow> nat" where
  "weight n c =
     (if outcome c \<noteq> None then 0
      else length (generator c) * (5 + nat (maxRetries (config n)))
           + sum_list (map (pipe_weight (maxRetries (config n))) (execPromises c))
           + (case joinState c of None \<Rightarrow> 3 | Some None \<Rightarrow> 2 | Some (Some f) \<Rightarrow> 1))"

text \<open>
  The cycle: steps are taken until nobody can take one.  It ends on every schedule, since
  every step uses up part of a finite amount of work (\<open>weight\<close>); the state it ends in is
  returned with the rest of the schedule.
\<close>

function cycle ::
  "('s, 'i, 'r) node \<Rightarrow> nat list \<Rightarrow> ('s, 'i, 'r) cycleState
     \<Rightarrow> nat list \<times> ('s, 'i, 'r) cycleState" where
  "cycle n sched c =
     (case enabled c of
        [] \<Rightarrow> (sched, c)
      | a # as \<Rightarrow> cycle n (tl sched) (step n (pick sched (a # as)) c))"
  by pat_completeness auto
termination
proof (relation "measure (\<lambda>(n, sched, c). weight n c)")
  show "wf (measure (\<lambda>(n :: ('s, 'i, 'r) node, sched :: nat list, c). weight n c))"
    by simp
next
  fix n :: "('s, 'i, 'r) node" and sched :: "nat list"
    and c :: "('s, 'i, 'r) cycleState" and a :: nat and as :: "nat list"
  assume en: "enabled c = a # as"
  let ?m = "maxRetries (config n)"
  let ?w = "pipe_weight ?m :: ('i, 'r) pipeline \<Rightarrow> nat"
  have nth_le: "?w (xs ! i) \<le> sum_list (map ?w xs)" if "i < length xs" for i xs
    using that by (induction xs arbitrary: i) (auto split: nat.splits simp: nth_Cons trans_le_add2)
  have upd: "sum_list (map ?w (xs[i := y])) + ?w (xs ! i) = sum_list (map ?w xs) + ?w y"
    if "i < length xs" for i xs y
    using that by (induction xs arbitrary: i) (auto split: nat.splits)
  have upd2: "sum_list (map ?w (xs[i := y])) = sum_list (map ?w xs) - ?w (xs ! i) + ?w y"
    if "i < length xs" for i xs y
    using upd[OF that, of y] nth_le[OF that] by linarith
  let ?k = "pick sched (a # as)"
  have "?k \<in> set (a # as)"
    unfolding pick_def by (rule nth_mem) simp
  then have "?k \<in> set (enabled c)"
    by (simp only: en)
  then have out: "outcome c = None"
    and k: "(?k = 0 \<and> main_enabled c) \<or>
            (\<exists>i. ?k = Suc i \<and> i < length (execPromises c) \<and> pipe_enabled (execPromises c ! i))"
    by (auto simp: enabled_def split: if_splits)
  have main: "weight n (main_step n c) < weight n c" if "main_enabled c"
    using that out
    by (auto simp: main_step_def weight_def main_enabled_def
             split: option.splits list.splits prod.splits)
  have pipe: "weight n (pipe_step n i c) < weight n c"
    if "i < length (execPromises c)" "pipe_enabled (execPromises c ! i)" for i
    using that out nth_le[OF that(1)]
    by (cases "execPromises c ! i")
       (auto simp: pipe_step_def weight_def pipe_enabled_def set_pipe_def reject_def upd2
             split: option.splits prod.splits iteration.splits sum.splits)
  have "weight n (step n ?k c) < weight n c"
    using k main pipe by (auto simp: step_def)
  then show "((n, tl sched, step n ?k c), (n, sched, c)) \<in> measure (\<lambda>(n, sched, c). weight n c)"
    by simp
qed

declare cycle.simps [simp del]

declare retry_loop.simps [simp del]

section \<open>The traversal\<close>

text \<open>
  \<^verbatim>\<open>action ?? 'default'\<close> and \<^verbatim>\<open>a || b\<close>.  Of the values an edge table can hold, a node, the
  symbol KILL and a string that is not empty are truthy; \<^verbatim>\<open>undefined\<close>, \<^verbatim>\<open>null\<close> and the
  empty string are falsy.
\<close>

definition nullish_default :: "action \<Rightarrow> action" where
  "nullish_default a = (case a of Undefined \<Rightarrow> Named ''default'' | Null \<Rightarrow> Named ''default'' | _ \<Rightarrow> a)"

definition truthy :: "jsval option \<Rightarrow> bool" where
  "truthy v =
     (case v of
        None \<Rightarrow> False
      | Some (NodeRef m) \<Rightarrow> True
      | Some (Act (Named s)) \<Rightarrow> s \<noteq> []
      | Some (Act KILL) \<Rightarrow> True
      | Some (Act Undefined) \<Rightarrow> False
      | Some (Act Null) \<Rightarrow> False)"

definition js_or :: "jsval option \<Rightarrow> jsval option \<Rightarrow> jsval option" where
  "js_or a b = (if truthy a then a else b)"

text \<open>
  \<^verbatim>\<open>const nextNode = node.getEdge(action ?? 'default') || node.getEdge('default')\<close>
\<close>

definition nextNode :: "('s, 'i, 'r) node \<Rightarrow> action \<Rightarrow> jsval option" where
  "nextNode n a = js_or (getEdge n (nullish_default a)) (getEdge n (Named ''default''))"

text \<open>
  \<^verbatim>\<open>run(node, store)\<close>.  The nodes of the graph are given by a table from numbers to nodes, and
  \<^verbatim>\<open>run\<close> starts at the node with number \<open>nid\<close>; the edges are those the nodes have when the
  traversal starts.  A traversal may go on for ever (a node
  connected to itself), so the recursion is bounded by fuel: \<open>None\<close> is a traversal that has
  not returned within it.  A result is whether \<^verbatim>\<open>run\<close> resolved or rejected, the store, and
  the nodes visited, each with the trace of its cycle.  A cycle that ended with no outcome
  would be a \<^verbatim>\<open>run\<close> that waits for ever; \<open>cycle_outcome\<close> below shows that there is none.
\<close>

type_synonym ('s, 'i, 'r) result =
  "(failure + unit) \<times> 's \<times> (nat \<times> ('i, 'r) event list) list"

fun run ::
  "nat \<Rightarrow> (nat \<Rightarrow> ('s, 'i, 'r) node) \<Rightarrow> nat \<Rightarrow> nat list \<Rightarrow> 's \<Rightarrow> ('s, 'i, 'r) result option" where
  "run 0 G nid sched s = None"
| "run (Suc fuel) G nid sched s =
     (case cycle (G nid) sched (init (G nid) s) of
        (sched1, c) \<Rightarrow>
          (case outcome c of
             None \<Rightarrow> None
           | Some (Inl f) \<Rightarrow> Some (Inl f, store c, [(nid, trace c)])
           | Some (Inr a) \<Rightarrow>
               (if a = KILL then Some (Inr (), store c, [(nid, trace c)])
                else if truthy (nextNode (G nid) a) then
                  (case nextNode (G nid) a of
                     Some (NodeRef m) \<Rightarrow>
                       map_option (\<lambda>(r, s1, vs). (r, s1, (nid, trace c) # vs))
                         (run fuel G m sched1 (store c))
                   | _ \<Rightarrow> Some (Inl NotANode, store c, [(nid, trace c)]))
                else Some (Inr (), store c, [(nid, trace c)]))))"

section \<open>Notions used to state the properties\<close>

text \<open>The number of elements of a list that satisfy \<open>P\<close>.\<close>

definition count :: "('a \<Rightarrow> bool) \<Rightarrow> 'a list \<Rightarrow> nat" where
  "count P xs = length (filter P xs)"



text \<open>
  What holds of every state a cycle passes through, for a generator of \<open>N\<close> yield steps:
  every item is either still to be pulled or has its pipeline; \<^verbatim>\<open>Promise.all\<close> is called once
  the generator is done, and while it is pending no pipeline is rejected; \<^verbatim>\<open>execResults\<close>
  holds one entry for each fulfilled pipeline and \<^verbatim>\<open>prepItems\<close> one for each pipeline past
  its first step; \<^verbatim>\<open>post\<close> is called at most once, as the last event, on the two arrays, when
  every pipeline is fulfilled, and the cycle is over then or when \<^verbatim>\<open>Promise.all\<close> rejects.
\<close>

definition sound :: "nat \<Rightarrow> ('s, 'i, 'r) cycleState \<Rightarrow> bool" where
  "sound N c =
     (length (execPromises c) + length (generator c) = N
      \<and> (joinState c = None \<or> generator c = [])
      \<and> (joinState c = Some None \<longrightarrow> count is_Rejected (execPromises c) = 0)
      \<and> length (execResults c) = count is_Fulfilled (execPromises c)
      \<and> length (prepItems c) = count (\<lambda>p. \<not> is_AwaitItem p) (execPromises c)
      \<and> (case outcome c of
            None \<Rightarrow> count is_post (trace c) = 0
          | Some r \<Rightarrow>
              (\<exists>f. joinState c = Some (Some f) \<and> r = Inl f \<and> count is_post (trace c) = 0)
              \<or> (joinState c = Some None
                  \<and> count is_Fulfilled (execPromises c) = length (execPromises c)
                  \<and> (\<exists>tr0 r0. trace c = tr0 @ [EvPost (prepItems c) (execResults c) r0]
                        \<and> count is_post tr0 = 0 \<and> r = map_sum Thrown id r0))))"







text \<open>The same node with another value in the \<^verbatim>\<open>timeout\<close> field of its configuration.\<close>

definition with_timeout :: "int \<Rightarrow> ('s, 'i, 'r) node \<Rightarrow> ('s, 'i, 'r) node" where
  "with_timeout t n = n\<lparr>config := (config n)\<lparr>timeout := t\<rparr>\<rparr>"

section \<open>Example nodes\<close>

text \<open>
  The node of the repository's retry test: \<^verbatim>\<open>exec\<close> counts its calls in the store and fails
  until the third; the node is built with \<^verbatim>\<open>{ maxRetries: 3, retryDelay: 10 }\<close>.
\<close>

definition unreliableNode :: "(nat, string, string) node" where
  "unreliableNode =
     \<lparr>config = mergeConfig (Some 3) (Some 10) None,
      edges = Map.empty,
      prep = (\<lambda>s. [\<lambda>s. (s, ''Test prompt'')]),
      exec = (\<lambda>s prompt.
                (Suc s, if Suc s < 3 then Inl ''Simulated API failure''
                        else Inr (''Response to '' @ prompt))),
      post = (\<lambda>s items results. (s, Inr Null)),
      execFallback = Some (\<lambda>s item e. (s, Inr ''Fallback response due to error'')),
      onError = (\<lambda>e attempt m s. s)\<rparr>"


text \<open>
  A node that yields the two items \<^verbatim>\<open>a\<close> and \<^verbatim>\<open>b\<close>, whose \<^verbatim>\<open>exec\<close> echoes its item and whose
  \<^verbatim>\<open>post\<close> returns nothing.
\<close>

definition echoNode :: "(unit, string, string) node" where
  "echoNode =
     \<lparr>config = DEFAULT_NODE_CONFIG,
      edges = Map.empty,
      prep = (\<lambda>s. [\<lambda>s. (s, ''a''), \<lambda>s. (s, ''b'')]),
      exec = (\<lambda>s item. (s, Inr (''echo '' @ item))),
      post = (\<lambda>s items results. (s, Inr Undefined)),
      execFallback = None,
      onError = (\<lambda>e attempt m s. s)\<rparr>"




text \<open>
  A graph for the traversal.  The store holds the action that \<^verbatim>\<open>post\<close> is to return next;
  \<^verbatim>\<open>prep\<close> yields nothing.  Node 0 has a default edge to node 1 and an edge \<^verbatim>\<open>retry\<close> to
  node 2, built with \<^verbatim>\<open>connect\<close>; the other nodes have no edges.
\<close>

definition leafNode :: "(action, string, string) node" where
  "leafNode =
     \<lparr>config = DEFAULT_NODE_CONFIG,
      edges = Map.empty,
      prep = (\<lambda>s. []),
      exec = (\<lambda>s item. (s, Inr item)),
      post = (\<lambda>s items results. (Undefined, Inr s)),
      execFallback = None,
      onError = (\<lambda>e attempt m s. s)\<rparr>"

definition routerNode :: "(action, string, string) node" where
  "routerNode = connect (Act (Named ''retry'')) (Some 2) (connect (NodeRef 1) None leafNode)"

definition routerGraph :: "nat \<Rightarrow> (action, string, string) node" where
  "routerGraph i = (if i = 0 then routerNode else leafNode)"

text \<open>
  The node of the repository's parallel-execution test: the store holds the queries and the
  results; \<^verbatim>\<open>prep\<close> yields the queries one by one, \<^verbatim>\<open>exec\<close> answers a query, and \<^verbatim>\<open>post\<close>
  stores \<^verbatim>\<open>execResults\<close> as the results and returns \<^verbatim>\<open>null\<close>.
\<close>

definition queryNode :: "(string list \<times> string list, string, string) node" where
  "queryNode =
     \<lparr>config = DEFAULT_NODE_CONFIG,
      edges = Map.empty,
      prep = (\<lambda>s. map (\<lambda>query s. (s, query)) (fst s)),
      exec = (\<lambda>s query. (s, Inr (''echo '' @ query))),
      post = (\<lambda>s items results. ((fst s, results), Inr Null)),
      execFallback = None,
      onError = (\<lambda>e attempt m s. s)\<rparr>"

section \<open>Basic facts\<close>

lemma count_simps [simp]:
  "count P [] = 0"
  "count P (x # xs) = (if P x then Suc (count P xs) else count P xs)"
  "count P (xs @ ys) = count P xs + count P ys"
  by (simp_all add: count_def)



lemma pick_enabled: "enabled c = a # as \<Longrightarrow> pick sched (a # as) \<in> set (enabled c)"
proof -
  assume en: "enabled c = a # as"
  have "pick sched (a # as) \<in> set (a # as)"
    unfolding pick_def by (rule nth_mem) simp
  then show ?thesis by (simp only: en)
qed

lemma cycle_Nil: "enabled c = [] \<Longrightarrow> cycle n sched c = (sched, c)"
  by (subst cycle.simps) simp

lemma cycle_Cons:
  "enabled c = a # as \<Longrightarrow> cycle n sched c = cycle n (tl sched) (step n (pick sched (a # as)) c)"
  by (subst cycle.simps) simp

text \<open>
  A property that holds at the start of a cycle and is kept by every step holds when the
  cycle has ended, and then nobody can take a step.
\<close>

lemma cycle_rule:
  assumes "P c"
    and "\<And>c k. P c \<Longrightarrow> k \<in> set (enabled c) \<Longrightarrow> P (step n k c)"
  shows "P (snd (cycle n sched c)) \<and> enabled (snd (cycle n sched c)) = []"
  using assms
proof (induction n sched c rule: cycle.induct)
  case (1 n sched c)
  show ?case
  proof (cases "enabled c")
    case Nil
    then show ?thesis using "1.prems"(1) by (simp add: cycle_Nil)
  next
    case (Cons a as)
    have "pick sched (a # as) \<in> set (enabled c)"
      using Cons by (rule pick_enabled)
    then have "P (step n (pick sched (a # as)) c)"
      using "1.prems" by simp
    from "1.IH"[OF Cons this "1.prems"(2)] show ?thesis
      by (simp only: cycle_Cons[OF Cons])
  qed
qed

section \<open>The retry wrapper: what a call returns\<close>





lemma count_pos_nonempty: "0 < count P xs \<Longrightarrow> xs \<noteq> []"
  by auto


section \<open>The steps of a cycle, case by case\<close>

lemma set_pipe_simps [simp]:
  "execPromises (set_pipe i p c) = (execPromises c)[i := p]"
  "store (set_pipe i p c) = store c"
  "prepItems (set_pipe i p c) = prepItems c"
  "execResults (set_pipe i p c) = execResults c"
  "generator (set_pipe i p c) = generator c"
  "joinState (set_pipe i p c) = joinState c"
  "outcome (set_pipe i p c) = outcome c"
  "trace (set_pipe i p c) = trace c"
  by (simp_all add: set_pipe_def)

lemma reject_simps [simp]:
  "execPromises (reject i f c) = (execPromises c)[i := Rejected f]"
  "store (reject i f c) = store c"
  "prepItems (reject i f c) = prepItems c"
  "execResults (reject i f c) = execResults c"
  "generator (reject i f c) = generator c"
  "joinState (reject i f c) = (if joinState c = Some None then Some (Some f) else joinState c)"
  "outcome (reject i f c) = outcome c"
  "trace (reject i f c) = trace c"
  by (simp_all add: reject_def)

lemma enabled_cases:
  assumes "k \<in> set (enabled c)"
  obtains (main) "k = 0" "outcome c = None" "main_enabled c"
  | (pipe) i where "k = Suc i" "outcome c = None" "i < length (execPromises c)"
      "pipe_enabled (execPromises c ! i)"
  using assms by (auto simp: enabled_def split: if_splits)

lemma main_step_cases:
  assumes "main_enabled c"
  obtains
    (Pull) g gs s x where "joinState c = None" "generator c = g # gs" "g (store c) = (s, x)"
      "main_step n c = c\<lparr>store := s, generator := gs, execPromises := execPromises c @ [AwaitItem x]\<rparr>"
  | (Join) "joinState c = None" "generator c = []"
      "main_step n c = c\<lparr>joinState := Some (first_rejected (execPromises c))\<rparr>"
  | (Throw) f where "joinState c = Some (Some f)" "main_step n c = c\<lparr>outcome := Some (Inl f)\<rparr>"
  | (Post) s r where "joinState c = Some None" "\<forall>p\<in>set (execPromises c). p = Fulfilled"
      "post n (store c) (prepItems c) (execResults c) = (s, r)"
      "main_step n c = c\<lparr>store := s,
         trace := trace c @ [EvPost (prepItems c) (execResults c) r],
         outcome := Some (map_sum Thrown id r)\<rparr>"
proof (cases "joinState c")
  case None
  show ?thesis
  proof (cases "generator c")
    case Nil
    then show ?thesis using None Join by (simp add: main_step_def)
  next
    case (Cons g gs)
    obtain s x where "g (store c) = (s, x)" by (cases "g (store c)")
    then show ?thesis using None Cons Pull by (simp add: main_step_def)
  qed
next
  case (Some j)
  show ?thesis
  proof (cases j)
    case None
    obtain s r where "post n (store c) (prepItems c) (execResults c) = (s, r)"
      by (cases "post n (store c) (prepItems c) (execResults c)")
    moreover have "\<forall>p\<in>set (execPromises c). p = Fulfilled"
      using assms Some None by (simp add: main_enabled_def list_all_iff)
    ultimately show ?thesis using Some None Post by (simp add: main_step_def)
  next
    case (Some f)
    then show ?thesis using \<open>joinState c = Some j\<close> Throw by (simp add: main_step_def)
  qed
qed

lemma pipe_step_cases:
  assumes "i < length (execPromises c)" and "pipe_enabled (execPromises c ! i)"
  obtains
    (PushItem) x where "execPromises c ! i = AwaitItem x"
      "pipe_step n i c = set_pipe i (Attempt x 0) (c\<lparr>prepItems := prepItems c @ [x]\<rparr>)"
  | (ExecReturn) x a s v where "execPromises c ! i = Attempt x a" "a < maxRetries (config n)"
      "exec n (store c) x = (s, Inr v)"
      "pipe_step n i c =
         set_pipe i (Settled v) (c\<lparr>store := s, trace := trace c @ [EvExec x a (Inr v)]\<rparr>)"
  | (ExecThrow) x a s e where "execPromises c ! i = Attempt x a" "a < maxRetries (config n)"
      "a = maxRetries (config n) - 1" "execFallback n = None" "exec n (store c) x = (s, Inl e)"
      "pipe_step n i c =
         reject i (Thrown e) (c\<lparr>store := s, trace := trace c @ [EvExec x a (Inl e)]\<rparr>)"
  | (ExecFallback) x a s e where "execPromises c ! i = Attempt x a" "a < maxRetries (config n)"
      "a = maxRetries (config n) - 1" "execFallback n \<noteq> None" "exec n (store c) x = (s, Inl e)"
      "pipe_step n i c =
         set_pipe i (InFallback x e) (c\<lparr>store := s, trace := trace c @ [EvExec x a (Inl e)]\<rparr>)"
  | (ExecRetry) x a s e where "execPromises c ! i = Attempt x a" "a < maxRetries (config n)"
      "a \<noteq> maxRetries (config n) - 1" "exec n (store c) x = (s, Inl e)"
      "pipe_step n i c =
         set_pipe i (Attempt x (a + 1))
           (c\<lparr>store := onError n e (a + 1) (maxRetries (config n)) s,
              trace := trace c @ [EvExec x a (Inl e), EvOnError e (a + 1) (maxRetries (config n)),
                                  EvSleep (max (retryDelay (config n)) 0)]\<rparr>)"
  | (Unreachable) x a where "execPromises c ! i = Attempt x a" "\<not> a < maxRetries (config n)"
      "pipe_step n i c = reject i Unreachable c"
  | (FallbackReturn) x e fb s v where "execPromises c ! i = InFallback x e"
      "execFallback n = Some fb" "fb (store c) x e = (s, Inr v)"
      "pipe_step n i c =
         set_pipe i (Settled v) (c\<lparr>store := s, trace := trace c @ [EvFallback x e (Inr v)]\<rparr>)"
  | (FallbackThrow) x e fb s e' where "execPromises c ! i = InFallback x e"
      "execFallback n = Some fb" "fb (store c) x e = (s, Inl e')"
      "pipe_step n i c =
         reject i (Thrown e') (c\<lparr>store := s, trace := trace c @ [EvFallback x e (Inl e')]\<rparr>)"
  | (FallbackMissing) x e where "execPromises c ! i = InFallback x e" "execFallback n = None"
      "pipe_step n i c = reject i (Thrown e) c"
  | (PushResult) v where "execPromises c ! i = Settled v"
      "pipe_step n i c = set_pipe i Fulfilled (c\<lparr>execResults := execResults c @ [v]\<rparr>)"
proof -
  have rng: "\<not> length (execPromises c) \<le> i"
    using assms(1) by simp
  show ?thesis
  proof (cases "execPromises c ! i")
  case (AwaitItem x)
  then show ?thesis using PushItem by (simp add: pipe_step_def rng)
next
  case (Attempt x a)
  show ?thesis
  proof (cases "a < maxRetries (config n)")
    case False
    then show ?thesis using Attempt Unreachable by (simp add: pipe_step_def rng)
  next
    case True
    obtain s r where ex: "exec n (store c) x = (s, r)" by (cases "exec n (store c) x")
    show ?thesis
    proof (cases r)
      case (Inr v)
      then show ?thesis using Attempt True ex ExecReturn
        by (simp add: pipe_step_def rng try_exec_def)
    next
      case (Inl e)
      show ?thesis
      proof (cases "a = maxRetries (config n) - 1")
        case False
        then show ?thesis using Attempt True ex Inl ExecRetry[of x a s e]
          by (simp add: pipe_step_def rng try_exec_def)
      next
        case last: True
        show ?thesis
        proof (cases "execFallback n")
          case None
          then show ?thesis using Attempt True ex Inl last ExecThrow[of x a s e]
            by (simp add: pipe_step_def rng try_exec_def)
        next
          case (Some fb)
          then show ?thesis using Attempt True ex Inl last ExecFallback[of x a s e]
            by (simp add: pipe_step_def rng try_exec_def)
        qed
      qed
    qed
  qed
next
  case (InFallback x e)
  show ?thesis
  proof (cases "execFallback n")
    case None
    then show ?thesis using InFallback FallbackMissing[of x e]
      by (simp add: pipe_step_def rng call_fallback_def)
  next
    case (Some fb)
    obtain s r where fb: "fb (store c) x e = (s, r)" by (cases "fb (store c) x e")
    show ?thesis
    proof (cases r)
      case (Inl e')
      then show ?thesis using InFallback Some fb FallbackThrow[of x e fb s e']
        by (simp add: pipe_step_def rng call_fallback_def)
    next
      case (Inr v)
      then show ?thesis using InFallback Some fb FallbackReturn[of x e fb s v]
        by (simp add: pipe_step_def rng call_fallback_def)
    qed
  qed
next
  case (Settled v)
  then show ?thesis using PushResult by (simp add: pipe_step_def rng)
next
  case Fulfilled
  then show ?thesis using assms by (simp add: pipe_enabled_def)
next
  case (Rejected f)
  then show ?thesis using assms by (simp add: pipe_enabled_def)
qed
qed

section \<open>What every state of a cycle satisfies\<close>

lemma count_le_length: "count P xs \<le> length xs"
  by (simp add: count_def)

lemma count_zero_iff: "count P xs = 0 \<longleftrightarrow> (\<forall>x\<in>set xs. \<not> P x)"
  by (induction xs) auto

lemma count_full_iff: "count P xs = length xs \<longleftrightarrow> (\<forall>x\<in>set xs. P x)"
proof (induction xs)
  case Nil
  then show ?case by simp
next
  case (Cons x xs)
  then show ?case using count_le_length[of P xs] by auto
qed

lemma count_update:
  "i < length xs \<Longrightarrow>
     count P (xs[i := y]) =
       (if P (xs ! i) = P y then count P xs
        else if P y then Suc (count P xs) else count P xs - 1)"
proof (induction xs arbitrary: i)
  case Nil
  then show ?case by simp
next
  case (Cons x xs)
  show ?case
  proof (cases i)
    case 0
    then show ?thesis by simp
  next
    case (Suc j)
    then have j: "j < length xs" using Cons.prems by simp
    have pos: "P (xs ! j) \<Longrightarrow> 0 < count P xs"
      using j count_zero_iff[of P xs] nth_mem[OF j] by auto
    from Cons.IH[OF j] pos show ?thesis using Suc by auto
  qed
qed

lemma first_rejected_None: "first_rejected ps = None \<longleftrightarrow> count is_Rejected ps = 0"
  by (induction ps rule: first_rejected.induct) auto

lemma sound_init: "sound (length (prep n s)) (init n s)"
  by (simp add: sound_def init_def)

lemma sound_step:
  assumes inv: "sound N c" and en: "k \<in> set (enabled c)"
  shows "sound N (step n k c)"
  using en
proof (cases rule: enabled_cases)
  case main
  from main(3) show ?thesis
  proof (cases rule: main_step_cases[where n = n])
    case (Pull g gs s x)
    then show ?thesis using inv main by (auto simp: sound_def step_def)
  next
    case Join
    then show ?thesis using inv main by (auto simp: sound_def step_def first_rejected_None)
  next
    case (Throw f)
    then show ?thesis using inv main by (auto simp: sound_def step_def)
  next
    case (Post s r)
    then show ?thesis using inv main by (auto simp: sound_def step_def count_full_iff)
  qed
next
  case (pipe i)
  from pipe(3,4) show ?thesis
  proof (cases rule: pipe_step_cases[where n = n])
    case (PushItem x)
    then show ?thesis using inv pipe by (auto simp: sound_def step_def count_update)
  next
    case (ExecReturn x a s v)
    then show ?thesis using inv pipe by (auto simp: sound_def step_def count_update)
  next
    case (ExecThrow x a s e)
    then show ?thesis using inv pipe by (auto simp: sound_def step_def count_update)
  next
    case (ExecFallback x a s e)
    then show ?thesis using inv pipe by (auto simp: sound_def step_def count_update)
  next
    case (ExecRetry x a s e)
    then show ?thesis using inv pipe by (auto simp: sound_def step_def count_update)
  next
    case (Unreachable x a)
    then show ?thesis using inv pipe by (auto simp: sound_def step_def count_update)
  next
    case (FallbackReturn x e fb s v)
    then show ?thesis using inv pipe by (auto simp: sound_def step_def count_update)
  next
    case (FallbackThrow x e fb s e')
    then show ?thesis using inv pipe by (auto simp: sound_def step_def count_update)
  next
    case (FallbackMissing x e)
    then show ?thesis using inv pipe by (auto simp: sound_def step_def count_update)
  next
    case (PushResult v)
    then show ?thesis using inv pipe by (auto simp: sound_def step_def count_update)
  qed
qed

section \<open>The end of a cycle\<close>

lemma sound_final:
  assumes "sound N c" "enabled c = []"
  shows "outcome c \<noteq> None"
proof
  assume out: "outcome c = None"
  have nomain: "\<not> main_enabled c"
    using assms(2) out by (auto simp: enabled_def split: if_splits)
  then have js: "joinState c = Some None"
    and notall: "\<not> list_all (\<lambda>p. p = Fulfilled) (execPromises c)"
    by (auto simp: main_enabled_def split: option.splits)
  have "filter (\<lambda>i. pipe_enabled (execPromises c ! i)) [0..<length (execPromises c)] = []"
    using assms(2) out by (auto simp: enabled_def split: if_splits)
  then have "\<forall>i<length (execPromises c). \<not> pipe_enabled (execPromises c ! i)"
    by (auto simp: filter_empty_conv)
  then have dis: "\<forall>p\<in>set (execPromises c). \<not> pipe_enabled p"
    by (auto simp: in_set_conv_nth)
  have "\<forall>p\<in>set (execPromises c). \<not> is_Rejected p"
    using assms(1) js by (simp add: sound_def count_zero_iff)
  with dis have "\<forall>p\<in>set (execPromises c). p = Fulfilled"
  proof (intro ballI)
    fix p assume "p \<in> set (execPromises c)"
    with dis \<open>\<forall>p\<in>set (execPromises c). \<not> is_Rejected p\<close>
    have "\<not> pipe_enabled p" "\<not> is_Rejected p" by auto
    then show "p = Fulfilled" by (cases p) (simp_all add: pipe_enabled_def)
  qed
  with notall show False by (simp add: list_all_iff)
qed

lemma cycle_sound:
  "sound (length (prep n s)) (snd (cycle n sched (init n s)))
   \<and> enabled (snd (cycle n sched (init n s))) = []"
  by (rule cycle_rule[where P = "sound (length (prep n s))"]) (simp_all add: sound_init sound_step)

lemma cycle_outcome: "outcome (snd (cycle n sched (init n s))) \<noteq> None"
  using cycle_sound[of n s sched] sound_final by blast

lemma sound_post:
  assumes "sound N c" "EvPost items results r \<in> set (trace c)"
  shows "list_all (\<lambda>p. p = Fulfilled) (execPromises c) \<and> length (execPromises c) = N
     \<and> items = prepItems c \<and> results = execResults c
     \<and> length results = N \<and> length items = N
     \<and> last (trace c) = EvPost items results r \<and> count is_post (trace c) = 1
     \<and> outcome c = Some (map_sum Thrown id r)"
proof -
  have "is_post (EvPost items results r)" by simp
  with assms(2) have pos: "count is_post (trace c) \<noteq> 0"
    unfolding count_zero_iff by blast
  then obtain oc where oc: "outcome c = Some oc"
    using assms(1) by (cases "outcome c") (auto simp: sound_def)
  with assms(1) pos obtain tr0 r0 where js: "joinState c = Some None"
    and full: "count is_Fulfilled (execPromises c) = length (execPromises c)"
    and tr: "trace c = tr0 @ [EvPost (prepItems c) (execResults c) r0]"
    and tr0: "count is_post tr0 = 0" and r0: "oc = map_sum Thrown id r0"
    by (auto simp: sound_def)
  have "EvPost items results r \<notin> set tr0"
    using tr0 \<open>is_post (EvPost items results r)\<close> unfolding count_zero_iff by blast
  with assms(2) tr have eq: "items = prepItems c" "results = execResults c" "r = r0"
    by auto
  have gen: "generator c = []" using assms(1) js by (auto simp: sound_def)
  have len: "length (execPromises c) = N" using assms(1) gen by (simp add: sound_def)
  have allF: "\<forall>p\<in>set (execPromises c). is_Fulfilled p"
    using full by (simp add: count_full_iff)
  then have allF': "\<forall>p\<in>set (execPromises c). p = Fulfilled"
    by (auto simp: pipeline.disc_eq_case split: pipeline.splits)
  have "\<forall>p\<in>set (execPromises c). \<not> is_AwaitItem p"
    using allF' by auto
  then have "count (\<lambda>p. \<not> is_AwaitItem p) (execPromises c) = length (execPromises c)"
    by (simp add: count_full_iff)
  then have li: "length (prepItems c) = N" using assms(1) len by (simp add: sound_def)
  have lr: "length (execResults c) = N" using assms(1) len full by (simp add: sound_def)
  show ?thesis
    using allF' len eq li lr tr tr0 oc r0 by (simp add: list_all_iff)
qed

section \<open>A node whose exec always fails and which has no fallback\<close>









section \<open>A node whose exec always fails and whose fallback returns\<close>






section \<open>The timeout field is never read\<close>

lemma with_timeout_simps [simp]:
  "maxRetries (config (with_timeout t n)) = maxRetries (config n)"
  "retryDelay (config (with_timeout t n)) = retryDelay (config n)"
  "edges (with_timeout t n) = edges n"
  "prep (with_timeout t n) = prep n"
  "exec (with_timeout t n) = exec n"
  "post (with_timeout t n) = post n"
  "execFallback (with_timeout t n) = execFallback n"
  "onError (with_timeout t n) = onError n"
  by (simp_all add: with_timeout_def)

lemma try_exec_timeout: "try_exec (with_timeout t n) x a st = try_exec n x a st"
  by (simp add: try_exec_def split: prod.splits sum.splits)

lemma call_fallback_timeout: "call_fallback (with_timeout t n) x e st = call_fallback n x e st"
  by (simp add: call_fallback_def split: prod.splits option.splits)

lemma retry_loop_timeout: "retry_loop (with_timeout t n) x a st = retry_loop n x a st"
proof (induction "nat (maxRetries (config n) - a)" arbitrary: a st)
  case 0
  then show ?case
    by (simp add: retry_loop.simps[of n x a st] retry_loop.simps[of "with_timeout t n" x a st])
next
  case (Suc d)
  have "retry_loop (with_timeout t n) x (a + 1) st1 = retry_loop n x (a + 1) st1" for st1
    using Suc.hyps(1)[of "a + 1" st1] Suc.hyps(2) by simp
  then show ?case
    by (simp add: retry_loop.simps[of n x a st] retry_loop.simps[of "with_timeout t n" x a st]
                  try_exec_timeout call_fallback_timeout
             split: prod.splits iteration.splits)
qed

lemma step_timeout: "step (with_timeout t n) k c = step n k c"
proof (cases k)
  case 0
  then show ?thesis
    by (simp add: step_def main_step_def split: option.splits list.splits prod.splits)
next
  case (Suc i)
  then show ?thesis
    by (cases "execPromises c ! i")
       (simp_all add: step_def pipe_step_def try_exec_timeout call_fallback_timeout)
qed

lemma cycle_timeout: "cycle (with_timeout t n) sched c = cycle n sched c"
proof (induction n sched c rule: cycle.induct)
  case (1 n sched c)
  show ?case
  proof (cases "enabled c")
    case Nil
    then show ?thesis by (simp add: cycle_Nil)
  next
    case (Cons a as)
    from "1.IH"[OF Cons] show ?thesis
      by (simp add: cycle_Cons[OF Cons] step_timeout)
  qed
qed

lemma init_timeout: "init (with_timeout t n) s = init n s"
  by (simp add: init_def)

lemma nextNode_timeout: "nextNode (with_timeout t n) a = nextNode n a"
  by (simp add: nextNode_def getEdge_def)

lemma run_timeout:
  "run fuel (\<lambda>i. with_timeout (T i) (G i)) nid sched s = run fuel G nid sched s"
proof (induction fuel arbitrary: nid sched s)
  case 0
  then show ?case by simp
next
  case (Suc fuel)
  then show ?case
    by (simp add: cycle_timeout init_timeout nextNode_timeout
             split: prod.splits option.splits sum.splits jsval.splits)
qed

section \<open>The retry wrapper inside a cycle\<close>

lemma retry_loop_Return:
  "a < maxRetries (config n) \<Longrightarrow> exec n s x = (s', Inr v) \<Longrightarrow>
     retry_loop n x a (s, tr) = ((s', tr @ [EvExec x a (Inr v)]), Inr v)"
  by (subst retry_loop.simps) (simp add: try_exec_def)

lemma retry_loop_Throw:
  "a < maxRetries (config n) \<Longrightarrow> a = maxRetries (config n) - 1 \<Longrightarrow> execFallback n = None \<Longrightarrow>
     exec n s x = (s', Inl e) \<Longrightarrow>
     retry_loop n x a (s, tr) = ((s', tr @ [EvExec x a (Inl e)]), Inl (Thrown e))"
  by (subst retry_loop.simps) (simp add: try_exec_def)

lemma retry_loop_Fallback:
  "a < maxRetries (config n) \<Longrightarrow> a = maxRetries (config n) - 1 \<Longrightarrow> execFallback n \<noteq> None \<Longrightarrow>
     exec n s x = (s', Inl e) \<Longrightarrow>
     retry_loop n x a (s, tr) = call_fallback n x e (s', tr @ [EvExec x a (Inl e)])"
  by (subst retry_loop.simps) (auto simp: try_exec_def)

lemma retry_loop_Retry:
  "a < maxRetries (config n) \<Longrightarrow> a \<noteq> maxRetries (config n) - 1 \<Longrightarrow>
     exec n s x = (s', Inl e) \<Longrightarrow>
     retry_loop n x a (s, tr) =
       retry_loop n x (a + 1)
         (onError n e (a + 1) (maxRetries (config n)) s',
          tr @ [EvExec x a (Inl e), EvOnError e (a + 1) (maxRetries (config n)),
                EvSleep (max (retryDelay (config n)) 0)])"
  by (subst retry_loop.simps) (simp add: try_exec_def)

lemma retry_loop_Unreachable:
  "\<not> a < maxRetries (config n) \<Longrightarrow> retry_loop n x a st = (st, Inl Unreachable)"
  by (subst retry_loop.simps) simp

text \<open>
  For a node that yields one item, a cycle is the retry wrapper followed by \<^verbatim>\<open>post\<close>, on every
  schedule: if \<^verbatim>\<open>executeWithRetry\<close> throws, the cycle ends with that failure and the trace of
  the call; if it returns \<open>v\<close>, \<^verbatim>\<open>post\<close> is called on the item and \<open>v\<close> in the store the call
  has left.
\<close>

lemma single_item_cycle:
  fixes n :: "('s, 'i, 'r) node"
  assumes prep: "prep n s = [g]" and g: "g s = (s0, x)"
    and call: "executeWithRetry n s0 x = ((s1, tr), r)"
  shows "case r of
           Inl f \<Rightarrow>
             outcome (snd (cycle n sched (init n s))) = Some (Inl f)
             \<and> trace (snd (cycle n sched (init n s))) = tr
             \<and> store (snd (cycle n sched (init n s))) = s1
         | Inr v \<Rightarrow>
             outcome (snd (cycle n sched (init n s)))
               = Some (map_sum Thrown id (snd (post n s1 [x] [v])))
             \<and> trace (snd (cycle n sched (init n s)))
               = tr @ [EvPost [x] [v] (snd (post n s1 [x] [v]))]
             \<and> store (snd (cycle n sched (init n s))) = fst (post n s1 [x] [v])"
proof -
  define Q where "Q = (\<lambda>(c :: ('s, 'i, 'r) cycleState) p.
    case p of
      AwaitItem x' \<Rightarrow> x' = x \<and> store c = s0 \<and> trace c = [] \<and> prepItems c = []
          \<and> execResults c = [] \<and> outcome c = None
          \<and> (joinState c = None \<or> joinState c = Some None)
    | Attempt x' a \<Rightarrow> x' = x \<and> retry_loop n x a (store c, trace c) = ((s1, tr), r)
          \<and> prepItems c = [x] \<and> execResults c = [] \<and> outcome c = None
          \<and> (joinState c = None \<or> joinState c = Some None)
    | InFallback x' e \<Rightarrow> x' = x \<and> call_fallback n x e (store c, trace c) = ((s1, tr), r)
          \<and> prepItems c = [x] \<and> execResults c = [] \<and> outcome c = None
          \<and> (joinState c = None \<or> joinState c = Some None)
    | Settled v \<Rightarrow> r = Inr v \<and> store c = s1 \<and> trace c = tr
          \<and> prepItems c = [x] \<and> execResults c = [] \<and> outcome c = None
          \<and> (joinState c = None \<or> joinState c = Some None)
    | Fulfilled \<Rightarrow> (\<exists>v. r = Inr v \<and> prepItems c = [x] \<and> execResults c = [v]
          \<and> (joinState c = None \<or> joinState c = Some None)
          \<and> ((outcome c = None \<and> store c = s1 \<and> trace c = tr)
             \<or> (outcome c = Some (map_sum Thrown id (snd (post n s1 [x] [v])))
                 \<and> trace c = tr @ [EvPost [x] [v] (snd (post n s1 [x] [v]))]
                 \<and> store c = fst (post n s1 [x] [v]))))
    | Rejected f \<Rightarrow> r = Inl f \<and> store c = s1 \<and> trace c = tr
          \<and> (joinState c = None \<or> joinState c = Some (Some f))
          \<and> (outcome c = None \<or> outcome c = Some (Inl f)))"
  define P where "P = (\<lambda>c :: ('s, 'i, 'r) cycleState.
    (execPromises c = [] \<and> generator c = [g] \<and> store c = s \<and> trace c = []
       \<and> prepItems c = [] \<and> execResults c = [] \<and> joinState c = None \<and> outcome c = None)
    \<or> (generator c = [] \<and> (\<exists>p. execPromises c = [p] \<and> Q c p)))"
  have init: "P (init n s)"
    by (simp add: P_def init_def prep)
  have step: "P (step n k c)" if inv: "P c" and en: "k \<in> set (enabled c)" for k c
    using en
  proof (cases rule: enabled_cases)
    case main
    from main(3) show ?thesis
    proof (cases rule: main_step_cases[where n = n])
      case (Pull g' gs s' x')
      then show ?thesis using inv main g
        by (auto simp: P_def Q_def step_def)
    next
      case Join
      then obtain p where p: "execPromises c = [p]" "Q c p"
        using inv by (auto simp: P_def)
      then show ?thesis using Join main inv
        by (cases p) (auto simp: P_def Q_def step_def)
    next
      case (Throw f)
      then obtain p where p: "execPromises c = [p]" "Q c p"
        using inv by (auto simp: P_def)
      then show ?thesis using Throw main inv
        by (cases p) (auto simp: P_def Q_def step_def)
    next
      case (Post s' r')
      then obtain p where p: "execPromises c = [p]" "Q c p"
        using inv by (auto simp: P_def)
      then show ?thesis using Post main inv
        by (cases p) (auto simp: P_def Q_def step_def)
    qed
  next
    case (pipe i)
    then obtain p where p: "execPromises c = [p]" "Q c p" and gen: "generator c = []"
      using inv by (auto simp: P_def)
    have i: "i = 0" using pipe(3) p(1) by simp
    from pipe(3,4) show ?thesis
    proof (cases rule: pipe_step_cases[where n = n])
      case (PushItem x')
      have "retry_loop n x 0 (store c, trace c) = ((s1, tr), r)"
        using PushItem p i call by (simp add: Q_def executeWithRetry_def)
      then show ?thesis using PushItem p i gen pipe
        by (auto simp: P_def Q_def step_def)
    next
      case (ExecReturn x' a s' v)
      then show ?thesis using p i gen pipe
        by (auto simp: P_def Q_def step_def retry_loop_Return retry_loop_Throw
              retry_loop_Fallback retry_loop_Retry)
    next
      case (ExecThrow x' a s' e)
      then show ?thesis using p i gen pipe
        by (auto simp: P_def Q_def step_def retry_loop_Return retry_loop_Throw
              retry_loop_Fallback retry_loop_Retry)
    next
      case (ExecFallback x' a s' e)
      then show ?thesis using p i gen pipe
        by (auto simp: P_def Q_def step_def retry_loop_Return retry_loop_Throw
              retry_loop_Fallback retry_loop_Retry)
    next
      case (ExecRetry x' a s' e)
      then show ?thesis using p i gen pipe
        by (auto simp: P_def Q_def step_def retry_loop_Return retry_loop_Throw
              retry_loop_Fallback retry_loop_Retry)
    next
      case (Unreachable x' a)
      then show ?thesis using p i gen pipe
        by (auto simp: P_def Q_def step_def retry_loop_Unreachable)
    next
      case (FallbackReturn x' e fb s' v)
      then show ?thesis using p i gen pipe
        by (auto simp: P_def Q_def step_def call_fallback_def)
    next
      case (FallbackThrow x' e fb s' e')
      then show ?thesis using p i gen pipe
        by (auto simp: P_def Q_def step_def call_fallback_def)
    next
      case (FallbackMissing x' e)
      then show ?thesis using p i gen pipe
        by (auto simp: P_def Q_def step_def call_fallback_def)
    next
      case (PushResult v)
      then show ?thesis using p i gen pipe
        by (auto simp: P_def Q_def step_def)
    qed
  qed
  let ?c = "snd (cycle n sched (init n s))"
  have fin: "P ?c"
    using cycle_rule[where P = P and n = n and c = "init n s" and sched = sched] init step
    by blast
  have out: "outcome ?c \<noteq> None"
    by (rule cycle_outcome)
  then obtain p where p: "execPromises ?c = [p]" "Q ?c p"
    using fin by (auto simp: P_def)
  show ?thesis
    using p(2) out by (cases p; cases r) (auto simp: Q_def)
qed

section \<open>Properties of the retry wrapper\<close>






section \<open>Properties of a cycle\<close>

lemma sound_resolved:
  assumes "sound N c" "outcome c = Some (Inr a)"
  shows "EvPost (prepItems c) (execResults c) (Inr a) \<in> set (trace c)"
proof -
  from assms obtain tr0 r0 where tr: "trace c = tr0 @ [EvPost (prepItems c) (execResults c) r0]"
    and r0: "Inr a = map_sum Thrown id r0"
    by (auto simp: sound_def)
  from r0 have "r0 = Inr a" by (cases r0) simp_all
  with tr show ?thesis by simp
qed

text \<open>
  C1.  The two arrays passed to \<^verbatim>\<open>post\<close> are not aligned when the calls of \<^verbatim>\<open>exec\<close> complete
  in another order than the items were produced.  \<^verbatim>\<open>queryNode\<close> yields the queries \<^verbatim>\<open>a\<close>,
  \<^verbatim>\<open>b\<close>, \<^verbatim>\<open>c\<close>; each is pushed to \<^verbatim>\<open>prepItems\<close> as soon as it is pulled; then \<^verbatim>\<open>exec\<close> of \<^verbatim>\<open>c\<close>
  completes first and \<^verbatim>\<open>exec\<close> of \<^verbatim>\<open>a\<close> last, and each pushes its result when it completes.
  \<^verbatim>\<open>post\<close> receives the items \<^verbatim>\<open>[a, b, c]\<close> and the results \<^verbatim>\<open>[echo c, echo b, echo a]\<close>:
  the result at index 0 belongs to the item at index 2, and the results left in the store
  are not in the order of the queries.
\<close>

theorem results_not_aligned:
  "run 1 (\<lambda>i. queryNode) 0 [0, 1, 0, 2, 0, 3, 0, 2, 2, 1, 1] ([''a'', ''b'', ''c''], []) =
     Some (Inr (), ([''a'', ''b'', ''c''], [''echo c'', ''echo b'', ''echo a'']),
           [(0, [EvExec ''c'' 0 (Inr ''echo c''), EvExec ''b'' 0 (Inr ''echo b''),
                 EvExec ''a'' 0 (Inr ''echo a''),
                 EvPost [''a'', ''b'', ''c''] [''echo c'', ''echo b'', ''echo a''] (Inr Null)])])"
  by code_simp

text \<open>
  C6.  On every schedule, when \<^verbatim>\<open>post\<close> has been called in a cycle, every item of the generator
  has had its pipeline started and every one of these pipelines is fulfilled; the call of
  \<^verbatim>\<open>post\<close> is the only one and the last event of the cycle, so no pipeline was running when
  it was made.  The two arrays it received have as many entries as \<^verbatim>\<open>prep\<close> yields items.
  And when the cycle ends with an action, that is, no failure propagates, \<^verbatim>\<open>post\<close> has been
  called, on the arrays \<^verbatim>\<open>prepItems\<close> and \<^verbatim>\<open>execResults\<close>, and returned that action.
\<close>

theorem join_barrier:
  fixes n :: "('s, 'i, 'r) node"
  shows "(EvPost items results r \<in> set (trace (snd (cycle n sched (init n s)))) \<longrightarrow>
            list_all (\<lambda>p. p = Fulfilled) (execPromises (snd (cycle n sched (init n s))))
          \<and> length (execPromises (snd (cycle n sched (init n s)))) = length (prep n s)
          \<and> last (trace (snd (cycle n sched (init n s)))) = EvPost items results r
          \<and> count is_post (trace (snd (cycle n sched (init n s)))) = 1
          \<and> length results = length (prep n s)
          \<and> length items = length (prep n s))
     \<and> (outcome (snd (cycle n sched (init n s))) = Some (Inr a) \<longrightarrow>
            last (trace (snd (cycle n sched (init n s))))
              = EvPost (prepItems (snd (cycle n sched (init n s))))
                       (execResults (snd (cycle n sched (init n s)))) (Inr a)
          \<and> length (execResults (snd (cycle n sched (init n s)))) = length (prep n s))"
proof (intro conjI impI)
  let ?c = "snd (cycle n sched (init n s))"
  have snd: "sound (length (prep n s)) ?c"
    using cycle_sound[of n s sched] by simp
  {
    assume "EvPost items results r \<in> set (trace ?c)"
    from sound_post[OF snd this]
    show "list_all (\<lambda>p. p = Fulfilled) (execPromises ?c)"
      and "length (execPromises ?c) = length (prep n s)"
      and "last (trace ?c) = EvPost items results r"
      and "count is_post (trace ?c) = 1"
      and "length results = length (prep n s)"
      and "length items = length (prep n s)"
      by blast+
  }
  {
    assume "outcome ?c = Some (Inr a)"
    from sound_post[OF snd sound_resolved[OF snd this]]
    show "last (trace ?c) = EvPost (prepItems ?c) (execResults ?c) (Inr a)"
      and "length (execResults ?c) = length (prep n s)"
      by blast+
  }
qed

theorem join_barrier_witness:
  "list_all (\<lambda>p. p = Fulfilled)
     (execPromises (snd (cycle echoNode [0, 1, 0, 2, 0, 1, 1] (init echoNode ()))))
   \<and> length [''echo b'', ''echo a''] = length (prep echoNode ())
   \<and> length (execResults (snd (cycle echoNode [0, 1, 0, 2, 0, 1, 1] (init echoNode ()))))
       = length (prep echoNode ())"
proof -
  have p: "EvPost [''a'', ''b''] [''echo b'', ''echo a''] (Inr Undefined)
          \<in> set (trace (snd (cycle echoNode [0, 1, 0, 2, 0, 1, 1] (init echoNode ()))))"
    by code_simp
  have q: "outcome (snd (cycle echoNode [0, 1, 0, 2, 0, 1, 1] (init echoNode ())))
          = Some (Inr Undefined)"
    by code_simp
  from join_barrier[of "[''a'', ''b'']" "[''echo b'', ''echo a'']" "Inr Undefined" echoNode
         "[0, 1, 0, 2, 0, 1, 1]" "()" Undefined] p q
  show ?thesis by simp
qed









section \<open>Properties of the traversal\<close>

lemma cycle_empty:
  fixes n :: "('s, 'i, 'r) node"
  assumes "prep n s = []"
  shows "cycle n sched (init n s) =
     (tl (tl sched),
      (init n s)\<lparr>joinState := Some None,
                 store := fst (post n s [] []),
                 trace := [EvPost [] [] (snd (post n s [] []))],
                 outcome := Some (map_sum Thrown id (snd (post n s [] [])))\<rparr>)"
proof -
  let ?c0 = "init n s"
  let ?c1 = "?c0\<lparr>joinState := Some None\<rparr>"
  let ?c2 = "?c0\<lparr>joinState := Some None,
                 store := fst (post n s [] []),
                 trace := [EvPost [] [] (snd (post n s [] []))],
                 outcome := Some (map_sum Thrown id (snd (post n s [] [])))\<rparr>"
  have e0: "enabled ?c0 = [0]"
    by (simp add: enabled_def main_enabled_def init_def)
  have s0: "step n (pick sched [0]) ?c0 = ?c1"
    using assms by (simp add: pick_def step_def main_step_def init_def)
  have e1: "enabled ?c1 = [0]"
    by (simp add: enabled_def main_enabled_def init_def)
  have s1: "step n (pick (tl sched) [0]) ?c1 = ?c2"
    by (simp add: pick_def step_def main_step_def init_def split: prod.splits)
  have e2: "enabled ?c2 = []"
    by (simp add: enabled_def)
  show ?thesis
    by (simp only: cycle_Cons[OF e0] s0 cycle_Cons[OF e1] s1 cycle_Nil[OF e2])
qed

text \<open>
  C9.  If \<^verbatim>\<open>prep\<close> yields no item, the cycle consists of one call of \<^verbatim>\<open>post\<close> with two empty
  arrays and no call of \<^verbatim>\<open>exec\<close>, and \<^verbatim>\<open>run\<close> goes on from what \<^verbatim>\<open>post\<close> returns as after any
  cycle: it rejects if \<^verbatim>\<open>post\<close> failed, stops on KILL, and otherwise follows the edge of the
  action, into the next node if there is one.
\<close>

theorem empty_cycle:
  fixes G :: "nat \<Rightarrow> ('s, 'i, 'r) node"
  assumes "prep (G nid) s = []"
  shows "trace (snd (cycle (G nid) sched (init (G nid) s))) = [EvPost [] [] (snd (post (G nid) s [] []))]
     \<and> outcome (snd (cycle (G nid) sched (init (G nid) s)))
         = Some (map_sum Thrown id (snd (post (G nid) s [] [])))
     \<and> run (Suc fuel) G nid sched s =
         (case post (G nid) s [] [] of
            (s1, Inl e) \<Rightarrow> Some (Inl (Thrown e), s1, [(nid, [EvPost [] [] (Inl e)])])
          | (s1, Inr a) \<Rightarrow>
              if a = KILL then Some (Inr (), s1, [(nid, [EvPost [] [] (Inr a)])])
              else if truthy (nextNode (G nid) a) then
                (case nextNode (G nid) a of
                   Some (NodeRef m) \<Rightarrow>
                     map_option (\<lambda>(r, s2, vs). (r, s2, (nid, [EvPost [] [] (Inr a)]) # vs))
                       (run fuel G m (tl (tl sched)) s1)
                 | _ \<Rightarrow> Some (Inl NotANode, s1, [(nid, [EvPost [] [] (Inr a)])]))
              else Some (Inr (), s1, [(nid, [EvPost [] [] (Inr a)])]))"
proof -
  obtain s1 r where p: "post (G nid) s [] [] = (s1, r)"
    by (cases "post (G nid) s [] []")
  show ?thesis
    by (cases r) (auto simp: cycle_empty[OF assms] p split: option.splits jsval.splits)
qed

theorem empty_cycle_witness:
  "run 3 routerGraph 0 [] (Named ''retry'') =
     Some (Inr (), Undefined,
           [(0, [EvPost [] [] (Inr (Named ''retry''))]), (2, [EvPost [] [] (Inr Undefined)])])
   \<and> trace (snd (cycle (routerGraph 0) [] (init (routerGraph 0) (Named ''retry''))))
       = [EvPost [] [] (snd (post (routerGraph 0) (Named ''retry'') [] []))]"
proof (intro conjI)
  show "run 3 routerGraph 0 [] (Named ''retry'') =
     Some (Inr (), Undefined,
           [(0, [EvPost [] [] (Inr (Named ''retry''))]), (2, [EvPost [] [] (Inr Undefined)])])"
    by code_simp
  have "prep (routerGraph 0) (Named ''retry'') = []"
    by (simp add: routerGraph_def routerNode_def leafNode_def connect_def)
  from empty_cycle[where G = routerGraph and nid = 0, OF this, of "[]" 0]
  show "trace (snd (cycle (routerGraph 0) [] (init (routerGraph 0) (Named ''retry''))))
       = [EvPost [] [] (snd (post (routerGraph 0) (Named ''retry'') [] []))]"
    by simp
qed

text \<open>
  C5.  After a cycle in which \<^verbatim>\<open>post\<close> has returned the action \<open>a\<close>:
  KILL ends the traversal with success, whatever the edges are;
  \<^verbatim>\<open>undefined\<close> and \<^verbatim>\<open>null\<close> select the edge stored under \<^verbatim>\<open>'default'\<close>;
  a named action selects the node registered for it, and the default edge when nothing is
  registered for it;
  the traversal goes on with the node selected, and ends with success when there is none.
\<close>

theorem routing_after_post:
  fixes G :: "nat \<Rightarrow> ('s, 'i, 'r) node"
  assumes "outcome (snd (cycle (G nid) sched (init (G nid) s))) = Some (Inr a)"
  shows "(a = KILL \<longrightarrow>
            run (Suc fuel) G nid sched s =
              Some (Inr (), store (snd (cycle (G nid) sched (init (G nid) s))),
                    [(nid, trace (snd (cycle (G nid) sched (init (G nid) s))))]))
     \<and> (a = Undefined \<or> a = Null \<longrightarrow>
            nextNode (G nid) a = getEdge (G nid) (Named ''default''))
     \<and> (\<forall>str m. a = Named str \<and> getEdge (G nid) (Named str) = Some (NodeRef m) \<longrightarrow>
            nextNode (G nid) a = Some (NodeRef m))
     \<and> (\<forall>str. a = Named str \<and> getEdge (G nid) (Named str) = None \<longrightarrow>
            nextNode (G nid) a = getEdge (G nid) (Named ''default''))
     \<and> (\<forall>m. a \<noteq> KILL \<and> nextNode (G nid) a = Some (NodeRef m) \<longrightarrow>
            run (Suc fuel) G nid sched s =
              map_option
                (\<lambda>(r, s1, vs).
                   (r, s1, (nid, trace (snd (cycle (G nid) sched (init (G nid) s)))) # vs))
                (run fuel G m (fst (cycle (G nid) sched (init (G nid) s)))
                   (store (snd (cycle (G nid) sched (init (G nid) s))))))
     \<and> (a \<noteq> KILL \<and> nextNode (G nid) a = None \<longrightarrow>
            run (Suc fuel) G nid sched s =
              Some (Inr (), store (snd (cycle (G nid) sched (init (G nid) s))),
                    [(nid, trace (snd (cycle (G nid) sched (init (G nid) s))))]))"
  using assms
  by (cases "cycle (G nid) sched (init (G nid) s)")
     (auto simp: nextNode_def js_or_def truthy_def nullish_default_def)

theorem routing_after_post_witness:
  "run 3 routerGraph 0 [] KILL =
     Some (Inr (), store (snd (cycle (routerGraph 0) [] (init (routerGraph 0) KILL))),
           [(0, trace (snd (cycle (routerGraph 0) [] (init (routerGraph 0) KILL))))])
   \<and> nextNode (routerGraph 0) Null = getEdge (routerGraph 0) (Named ''default'')
   \<and> nextNode (routerGraph 0) (Named ''retry'') = Some (NodeRef 2)
   \<and> nextNode (routerGraph 0) (Named ''other'') = getEdge (routerGraph 0) (Named ''default'')
   \<and> run 3 routerGraph 0 [] (Named ''retry'') =
       map_option
         (\<lambda>(r, s1, vs).
            (r, s1,
             (0, trace (snd (cycle (routerGraph 0) [] (init (routerGraph 0) (Named ''retry''))))) # vs))
         (run 2 routerGraph 2
            (fst (cycle (routerGraph 0) [] (init (routerGraph 0) (Named ''retry''))))
            (store (snd (cycle (routerGraph 0) [] (init (routerGraph 0) (Named ''retry''))))))
   \<and> run 3 routerGraph 1 [] (Named ''other'') =
       Some (Inr (), store (snd (cycle (routerGraph 1) [] (init (routerGraph 1) (Named ''other'')))),
             [(1, trace (snd (cycle (routerGraph 1) [] (init (routerGraph 1) (Named ''other'')))))])
   \<and> run 3 routerGraph 0 [] (Named ''other'') =
       Some (Inr (), Undefined,
             [(0, [EvPost [] [] (Inr (Named ''other''))]), (1, [EvPost [] [] (Inr Undefined)])])"
proof -
  have edges:
    "getEdge (routerGraph 0) (Named ''retry'') = Some (NodeRef 2)"
    "getEdge (routerGraph 0) (Named ''other'') = None"
    "nextNode (routerGraph 0) (Named ''retry'') = Some (NodeRef 2)"
    "nextNode (routerGraph 1) (Named ''other'') = None"
    by (simp_all add: routerGraph_def routerNode_def leafNode_def connect_def getEdge_def
          nextNode_def js_or_def truthy_def nullish_default_def)
  have o0: "outcome (snd (cycle (routerGraph 0) [] (init (routerGraph 0) KILL))) = Some (Inr KILL)"
    by code_simp
  have o1: "outcome (snd (cycle (routerGraph 0) [] (init (routerGraph 0) Null))) = Some (Inr Null)"
    by code_simp
  have o2: "outcome (snd (cycle (routerGraph 0) [] (init (routerGraph 0) (Named ''retry''))))
              = Some (Inr (Named ''retry''))"
    by code_simp
  have o3: "outcome (snd (cycle (routerGraph 0) [] (init (routerGraph 0) (Named ''other''))))
              = Some (Inr (Named ''other''))"
    by code_simp
  have o4: "outcome (snd (cycle (routerGraph 1) [] (init (routerGraph 1) (Named ''other''))))
              = Some (Inr (Named ''other''))"
    by code_simp
  have r: "run 3 routerGraph 0 [] (Named ''other'') =
       Some (Inr (), Undefined,
             [(0, [EvPost [] [] (Inr (Named ''other''))]), (1, [EvPost [] [] (Inr Undefined)])])"
    by code_simp
  note t0 = routing_after_post[where G = routerGraph and nid = 0 and fuel = 2, OF o0]
  note t1 = routing_after_post[where G = routerGraph and nid = 0 and fuel = 2, OF o1]
  note t2 = routing_after_post[where G = routerGraph and nid = 0 and fuel = 2, OF o2]
  note t3 = routing_after_post[where G = routerGraph and nid = 0 and fuel = 2, OF o3]
  note t4 = routing_after_post[where G = routerGraph and nid = 1 and fuel = 2, OF o4]
  have c0: "run 3 routerGraph 0 [] KILL =
     Some (Inr (), store (snd (cycle (routerGraph 0) [] (init (routerGraph 0) KILL))),
           [(0, trace (snd (cycle (routerGraph 0) [] (init (routerGraph 0) KILL))))])"
    using t0 by (simp add: eval_nat_numeral)
  have c1: "nextNode (routerGraph 0) Null = getEdge (routerGraph 0) (Named ''default'')"
    using t1 by simp
  have c2: "nextNode (routerGraph 0) (Named ''retry'') = Some (NodeRef 2)"
    using t2 edges(1) by simp
  have c3: "nextNode (routerGraph 0) (Named ''other'') = getEdge (routerGraph 0) (Named ''default'')"
    using t3 edges(2) by simp
  have c4: "run 3 routerGraph 0 [] (Named ''retry'') =
       map_option
         (\<lambda>(r, s1, vs).
            (r, s1,
             (0, trace (snd (cycle (routerGraph 0) [] (init (routerGraph 0) (Named ''retry''))))) # vs))
         (run 2 routerGraph 2
            (fst (cycle (routerGraph 0) [] (init (routerGraph 0) (Named ''retry''))))
            (store (snd (cycle (routerGraph 0) [] (init (routerGraph 0) (Named ''retry''))))))"
    using t2 edges(3) by (simp add: eval_nat_numeral)
  have c5: "run 3 routerGraph 1 [] (Named ''other'') =
       Some (Inr (), store (snd (cycle (routerGraph 1) [] (init (routerGraph 1) (Named ''other'')))),
             [(1, trace (snd (cycle (routerGraph 1) [] (init (routerGraph 1) (Named ''other'')))))])"
    using t4 edges(4) by (simp add: eval_nat_numeral)
  from c0 c1 c2 c3 c4 c5 r show ?thesis by blast
qed

text \<open>
  C10.  \<^verbatim>\<open>n.connect(t)\<close> is \<^verbatim>\<open>n.connect('default', t)\<close>: both store \<open>t\<close> under the string key
  \<^verbatim>\<open>'default'\<close>.  So a \<^verbatim>\<open>post\<close> that returns the string \<^verbatim>\<open>'default'\<close> is routed to \<open>t\<close>, as one
  that returns nothing is, and each of the two forms of the call overwrites the edge set by
  the other.
\<close>

theorem connect_default:
  "connect (NodeRef t) None n = connect (Act (Named ''default'')) (Some t) n
   \<and> getEdge (connect (NodeRef t) None n) (Named ''default'') = Some (NodeRef t)
   \<and> nextNode (connect (NodeRef t) None n) (Named ''default'') = Some (NodeRef t)
   \<and> nextNode (connect (NodeRef t) None n) Undefined = Some (NodeRef t)
   \<and> getEdge (connect (NodeRef t2) None (connect (Act (Named ''default'')) (Some t1) n))
        (Named ''default'') = Some (NodeRef t2)
   \<and> getEdge (connect (Act (Named ''default'')) (Some t2) (connect (NodeRef t1) None n))
        (Named ''default'') = Some (NodeRef t2)"
  by (simp add: connect_def getEdge_def nextNode_def js_or_def truthy_def nullish_default_def)

theorem connect_default_witness:
  "connect (NodeRef 7) None leafNode = connect (Act (Named ''default'')) (Some 7) leafNode
   \<and> getEdge (connect (NodeRef 7) None leafNode) (Named ''default'') = Some (NodeRef 7)
   \<and> nextNode (connect (NodeRef 7) None leafNode) (Named ''default'') = Some (NodeRef 7)
   \<and> nextNode (connect (NodeRef 7) None leafNode) Undefined = Some (NodeRef 7)
   \<and> getEdge (connect (NodeRef 2) None (connect (Act (Named ''default'')) (Some 1) leafNode))
        (Named ''default'') = Some (NodeRef 2)
   \<and> getEdge (connect (Act (Named ''default'')) (Some 2) (connect (NodeRef 1) None leafNode))
        (Named ''default'') = Some (NodeRef 2)"
  by (rule connect_default)

text \<open>
  C7.  The \<^verbatim>\<open>timeout\<close> field of the configuration has no influence: with any other value in
  it, \<^verbatim>\<open>executeWithRetry\<close>, a cycle and a whole traversal make the same calls, reach the same
  store and end with the same result, on every schedule.
\<close>

theorem timeout_not_enforced:
  "executeWithRetry (with_timeout t n) s item = executeWithRetry n s item
   \<and> cycle (with_timeout t n) sched c = cycle n sched c
   \<and> run fuel (\<lambda>i. with_timeout (T i) (G i)) nid sched s = run fuel G nid sched s"
  by (simp add: executeWithRetry_def retry_loop_timeout cycle_timeout run_timeout)

theorem timeout_not_enforced_witness:
  "executeWithRetry (with_timeout 1 unreliableNode) 0 ''Test prompt''
     = executeWithRetry unreliableNode 0 ''Test prompt''
   \<and> cycle (with_timeout 1 unreliableNode) [] (init unreliableNode 0)
     = cycle unreliableNode [] (init unreliableNode 0)
   \<and> run 3 (\<lambda>i. with_timeout 5 unreliableNode) 0 [] 0 = run 3 (\<lambda>i. unreliableNode) 0 [] 0"
  using timeout_not_enforced[where t = 1 and n = unreliableNode and s = 0
          and item = "''Test prompt''" and sched = "[]" and c = "init unreliableNode 0"
          and fuel = 3 and T = "\<lambda>i. 5" and G = "\<lambda>i. unreliableNode" and nid = 0]
  by simp

end
